theory Spec2Isabelle
  imports Main
begin

section \<open>Byte slices over an explicit heap\<close>

text \<open>
  A Go \<open>[]byte\<close> is a view onto a backing array, and the Logger hands the store a view
  onto the array its accumulator keeps writing to. The backing arrays therefore live in
  an explicit heap: a list of arrays, the address of an array being its index. An array's
  length is the capacity of the slices that view it. Every slice of this program starts
  at offset 0 of its array (\<open>[]byte(s)\<close>, \<open>b.buf[:n]\<close>, and \<open>b.buf[b.off:]\<close> with
  \<open>b.off = 0\<close>, since nothing ever reads from the accumulator), so a slice is an
  address and a length. A slice always views an array that exists
  (\<open>arr b < length h\<close>).
\<close>

type_synonym byte = char
type_synonym addr = nat
type_synonym heap = "byte list list"

record bslice =
  arr :: addr
  len :: nat

definition cap :: "heap \<Rightarrow> bslice \<Rightarrow> nat" where
  "cap h b = length (h ! arr b)"

text \<open>\<open>string(b)\<close>: a copy of the bytes the slice views at the moment of the conversion.\<close>

definition string_of :: "heap \<Rightarrow> bslice \<Rightarrow> string" where
  "string_of h b = take (len b) (h ! arr b)"

text \<open>\<open>[]byte(s)\<close>: a fresh array holding a copy of \<open>s\<close>.\<close>

definition bytes_of :: "string \<Rightarrow> heap \<Rightarrow> bslice \<times> heap" where
  "bytes_of s h = (\<lparr>arr = length h, len = length s\<rparr>, h @ [s])"

section \<open>container/ring\<close>

text \<open>
  \<open>ring.New(n)\<close> links \<open>n\<close> elements into a cycle and returns a pointer to one of
  them; it returns nil when \<open>n \<le> 0\<close>. A \<open>*Ring\<close> is one element of the cycle. The
  store keeps exactly one pointer into each cycle, so a non-nil \<open>*Ring\<close> is the list of
  the cycle's \<open>Value\<close>s together with the position pointed at; \<open>cur < length slots\<close>
  holds for every ring \<open>ring_New\<close>, \<open>Next\<close> and \<open>Prev\<close> produce. A \<open>Value\<close> is an
  \<open>interface{}\<close>: nil (\<open>None\<close>) or, here, a \<open>[]byte\<close>.
\<close>

record Ring =
  slots :: "bslice option list"
  cur :: nat

definition ring_New :: "int \<Rightarrow> Ring option" where
  "ring_New n = (if n \<le> 0 then None
                 else Some \<lparr>slots = replicate (nat n) None, cur = 0\<rparr>)"

definition Next :: "Ring \<Rightarrow> Ring" where
  "Next g = g\<lparr>cur := (cur g + 1) mod length (slots g)\<rparr>"

definition Prev :: "Ring \<Rightarrow> Ring" where
  "Prev g = g\<lparr>cur := (cur g + length (slots g) - 1) mod length (slots g)\<rparr>"

definition Value :: "Ring \<Rightarrow> bslice option" where
  "Value g = slots g ! cur g"

definition set_Value :: "Ring \<Rightarrow> bslice option \<Rightarrow> Ring" where
  "set_Value g v = g\<lparr>slots := (slots g)[cur g := v]\<rparr>"

section \<open>RingBuffer\<close>

type_synonym LogPriority = int

definition Trivial :: LogPriority where [simp]: "Trivial = 0"
definition Minor :: LogPriority where [simp]: "Minor = 1"
definition Major :: LogPriority where [simp]: "Major = 2"
definition Critical :: LogPriority where [simp]: "Critical = 3"

text \<open>
  \<open>buf\<close> is a \<open>map[int]*ring.Ring\<close>: a key is absent (\<open>None\<close>), present with a nil
  pointer (\<open>Some None\<close>) or present with a ring. \<open>lock\<close> is the mutex: \<open>True\<close> while
  held.
\<close>

record RingBuffer =
  p :: LogPriority
  bufCap :: int
  buf :: "int \<rightharpoonup> Ring option"
  lock :: bool
  highP :: int

text \<open>
  What a call does besides returning a value: the two errors \<open>Pop\<close> returns
  (\<open>"Buffer is empty"\<close> and \<open>"pop type assertion failed"\<close>), the run-time panic of a
  nil pointer dereference, blocking for ever on a mutex that is held, and the fatal error
  of unlocking a mutex that is not held.
\<close>

datatype failure =
    BufferIsEmpty
  | PopTypeAssertionFailed
  | NilPointerPanic
  | BlockedOnLock
  | UnlockOfUnlockedMutex

definition NewRingBuffer :: "LogPriority \<Rightarrow> int \<Rightarrow> RingBuffer" where
  "NewRingBuffer q sz =
     \<lparr>p = q, bufCap = sz, buf = Map.empty, lock = False, highP = 0\<rparr>"

definition GetPriority :: "RingBuffer \<Rightarrow> LogPriority" where
  "GetPriority r = p r"

definition SetPriority :: "LogPriority \<Rightarrow> RingBuffer \<Rightarrow> RingBuffer" where
  "SetPriority q r = r\<lparr>p := q\<rparr>"

text \<open>\<open>r.buf[i]\<close> as an expression: the zero value nil for an absent key.\<close>

definition buf_at :: "RingBuffer \<Rightarrow> int \<Rightarrow> Ring option" where
  "buf_at r i = (case buf r i of None \<Rightarrow> None | Some g \<Rightarrow> g)"

text \<open>
  The loop at the end of \<open>Pop\<close>, started at \<open>i = r.highP\<close>: it stops at the first rank
  whose ring exists and has a non-nil value behind its cursor, and assigns \<open>highP\<close>
  there; when it runs past rank 0 it has assigned nothing.
\<close>

function update_highP :: "RingBuffer \<Rightarrow> int \<Rightarrow> failure + RingBuffer" where
  "update_highP r i =
     (if 0 \<le> i then
        (case buf r i of
           None \<Rightarrow> update_highP r (i - 1)
         | Some None \<Rightarrow> Inl NilPointerPanic
         | Some (Some g) \<Rightarrow>
             if Value (Prev g) \<noteq> None then Inr (r\<lparr>highP := i\<rparr>)
             else update_highP r (i - 1))
      else Inr r)"
  by pat_completeness auto
termination
  by (relation "measure (\<lambda>(r, i). nat (i + 1))") auto

declare update_highP.simps [simp del]

definition Pop :: "heap \<Rightarrow> RingBuffer \<Rightarrow> (failure + string) \<times> RingBuffer" where
  "Pop h r =
     (case buf r (highP r) of
        None \<Rightarrow> (Inl BufferIsEmpty, r)
      | Some None \<Rightarrow> (Inl NilPointerPanic, r)
      | Some (Some g) \<Rightarrow>
          let r1 = r\<lparr>buf := (buf r)(highP r \<mapsto> Some (Prev g))\<rparr> in
          (case Value (Prev g) of
             None \<Rightarrow> (Inl PopTypeAssertionFailed, r1)
           | Some b \<Rightarrow>
               let r2 = r1\<lparr>buf := (buf r1)(highP r1 \<mapsto> Some (set_Value (Prev g) None))\<rparr> in
               (case update_highP r2 (highP r2) of
                  Inl e \<Rightarrow> (Inl e, r2)
                | Inr r3 \<Rightarrow> (Inr (string_of h b), r3))))"

text \<open>
  The statements of \<open>PWrite\<close> between \<open>r.lock.Lock()\<close> and the deferred
  \<open>r.lock.Unlock()\<close>, one definition each.
\<close>

definition raise_highP :: "int \<Rightarrow> RingBuffer \<Rightarrow> RingBuffer" where
  "raise_highP i r = (if i > highP r then r\<lparr>highP := i\<rparr> else r)"

definition ensure_ring :: "int \<Rightarrow> RingBuffer \<Rightarrow> RingBuffer" where
  "ensure_ring i r =
     (if buf_at r i = None then r\<lparr>buf := (buf r)(i \<mapsto> ring_New (bufCap r))\<rparr> else r)"

definition store_Value :: "int \<Rightarrow> bslice \<Rightarrow> RingBuffer \<Rightarrow> failure + RingBuffer" where
  "store_Value i b r =
     (case buf_at r i of
        None \<Rightarrow> Inl NilPointerPanic
      | Some g \<Rightarrow> Inr (r\<lparr>buf := (buf r)(i \<mapsto> Some (set_Value g (Some b)))\<rparr>))"

definition advance :: "int \<Rightarrow> RingBuffer \<Rightarrow> failure + RingBuffer" where
  "advance i r =
     (case buf_at r i of
        None \<Rightarrow> Inl NilPointerPanic
      | Some g \<Rightarrow> Inr (r\<lparr>buf := (buf r)(i \<mapsto> Some (Next g))\<rparr>))"

definition PWrite :: "LogPriority \<Rightarrow> bslice \<Rightarrow> RingBuffer \<Rightarrow> (failure + nat) \<times> RingBuffer" where
  "PWrite q b r =
     (if lock r then (Inl BlockedOnLock, r)
      else
        let r1 = r\<lparr>lock := True\<rparr>;
            r3 = ensure_ring q (raise_highP q r1)
        in (case store_Value q b r3 of
              Inl e \<Rightarrow> (Inl e, r3\<lparr>lock := False\<rparr>)
            | Inr r4 \<Rightarrow>
                (case advance q r4 of
                   Inl e \<Rightarrow> (Inl e, r4\<lparr>lock := False\<rparr>)
                 | Inr r5 \<Rightarrow> (Inr (len b), r5\<lparr>lock := False\<rparr>))))"

definition Write :: "bslice \<Rightarrow> RingBuffer \<Rightarrow> (failure + nat) \<times> RingBuffer" where
  "Write b r = PWrite (GetPriority r) b r"

section \<open>Calls of the store's interface, in sequence\<close>

text \<open>
  One goroutine calling the \<open>Buffer\<close> interface of a \<open>*RingBuffer\<close>. The store never
  writes to a backing array, so the heap \<open>h\<close> is the same before and after every call.
\<close>

datatype call =
    CallPWrite LogPriority bslice
  | CallWrite bslice
  | CallPop
  | CallGetPriority
  | CallSetPriority LogPriority

datatype reply =
    Wrote "failure + nat"
  | Popped "failure + string"
  | Got LogPriority
  | Returned

fun do_call :: "heap \<Rightarrow> call \<Rightarrow> RingBuffer \<Rightarrow> reply \<times> RingBuffer" where
  "do_call h (CallPWrite q b) r = (let (x, r') = PWrite q b r in (Wrote x, r'))"
| "do_call h (CallWrite b) r = (let (x, r') = Write b r in (Wrote x, r'))"
| "do_call h CallPop r = (let (x, r') = Pop h r in (Popped x, r'))"
| "do_call h CallGetPriority r = (Got (GetPriority r), r)"
| "do_call h (CallSetPriority q) r = (Returned, SetPriority q r)"

fun run :: "heap \<Rightarrow> call list \<Rightarrow> RingBuffer \<Rightarrow> reply list \<times> RingBuffer" where
  "run h [] r = ([], r)"
| "run h (c # cs) r =
     (let (x, r') = do_call h c r; (xs, r'') = run h cs r' in (x # xs, r''))"

text \<open>The slice \<open>[]byte(s)\<close> yields once its array is at address \<open>a\<close>: all of the array.\<close>

definition whole :: "heap \<Rightarrow> addr \<Rightarrow> bslice" where
  "whole h a = \<lparr>arr = a, len = length (h ! a)\<rparr>"

text \<open>The replies of the \<open>Pop\<close> calls alone.\<close>

fun popped :: "reply list \<Rightarrow> (failure + string) list" where
  "popped [] = []"
| "popped (Popped x # xs) = x # popped xs"
| "popped (_ # xs) = popped xs"

section \<open>bytes.Buffer, as far as the Logger uses it\<close>

text \<open>
  The accumulator \<open>aBuf\<close> is a \<open>bytes.Buffer\<close>; of its fields only the slice \<open>buf\<close>
  matters, the read offset staying 0. \<open>WriteString\<close> extends the slice in place when
  its array has room (\<open>tryGrowByReslice\<close>); otherwise \<open>grow\<close> moves the content to a
  new array and leaves the old one as it is. How large the new array is depends on the
  Go release and on the allocator's size classes, so it is the parameter \<open>policy\<close>
  (from the old capacity and the length needed); the array is never shorter than the
  length needed. \<open>go_policy\<close> is the size in the current Go releases: \<open>growSlice\<close> asks
  for \<open>max need (2 * c)\<close> bytes, and the allocator rounds the request up to the next of
  its size classes (the table \<open>class_to_size\<close> of \<open>runtime/sizeclasses.go\<close>), or to a
  multiple of the page of 8192 bytes when it is above the largest class. \<open>Bytes\<close>
  returns the slice itself, not a copy, and \<open>Reset\<close> keeps the array and sets the length
  to 0.
\<close>

type_synonym policy = "nat \<Rightarrow> nat \<Rightarrow> nat"

definition size_classes :: "int list" where
  "size_classes =
     [8, 16, 24, 32, 48, 64, 80, 96, 112, 128, 144, 160, 176, 192, 208, 224, 240, 256,
      288, 320, 352, 384, 416, 448, 480, 512, 576, 640, 704, 768, 896, 1024, 1152, 1280,
      1408, 1536, 1792, 2048, 2304, 2688, 3072, 3200, 3456, 4096, 4864, 5120, 5376, 6144,
      6528, 6784, 6912, 8192, 9472, 9728, 10240, 10880, 12288, 13568, 14336, 16384, 18432,
      19072, 20480, 21760, 24576, 27264, 28672, 32768]"

definition roundupsize :: "nat \<Rightarrow> nat" where
  "roundupsize n =
     nat (case filter (\<lambda>c. int n \<le> c) size_classes of
            c # _ \<Rightarrow> c
          | [] \<Rightarrow> ((int n + 8191) div 8192) * 8192)"

definition go_policy :: policy where
  "go_policy c need = roundupsize (max need (2 * c))"

definition NewBuffer :: "heap \<Rightarrow> bslice \<times> heap" where
  "NewBuffer h = bytes_of [] h"

definition WriteString :: "policy \<Rightarrow> string \<Rightarrow> bslice \<times> heap \<Rightarrow> bslice \<times> heap" where
  "WriteString policy s bh =
     (let b = fst bh; h = snd bh; n = length s; l = len b in
      if n \<le> cap h b - l
      then (b\<lparr>len := l + n\<rparr>,
            h[arr b := take l (h ! arr b) @ s @ drop (l + n) (h ! arr b)])
      else
        let c = max (l + n) (policy (cap h b) (l + n)) in
        (\<lparr>arr = length h, len = l + n\<rparr>,
         h @ [take l (h ! arr b) @ s @ replicate (c - (l + n)) (CHR 0x00)]))"

definition Bytes :: "bslice \<Rightarrow> bslice" where
  "Bytes b = b"

definition Reset :: "bslice \<Rightarrow> bslice" where
  "Reset b = b\<lparr>len := 0\<rparr>"

section \<open>Logger\<close>

text \<open>
  The Logger's \<open>buf\<close> holds the \<open>*RingBuffer\<close> (field \<open>lbuf\<close> here, \<open>llock\<close> for its
  mutex: the store's record has the names \<open>buf\<close> and \<open>lock\<close> already). A Logger
  state comes with the heap its accumulator writes to.
\<close>

record Logger =
  lbuf :: RingBuffer
  aBuf :: bslice
  llock :: bool

definition NewLogger :: "RingBuffer \<Rightarrow> heap \<Rightarrow> Logger \<times> heap" where
  "NewLogger b h =
     (let (a, h') = NewBuffer h in (\<lparr>lbuf = b, aBuf = a, llock = False\<rparr>, h'))"

definition Append :: "policy \<Rightarrow> string \<Rightarrow> Logger \<times> heap \<Rightarrow> Logger \<times> heap" where
  "Append policy s lh =
     (let (a, h') = WriteString policy s (aBuf (fst lh), snd lh)
      in ((fst lh)\<lparr>aBuf := a\<rparr>, h'))"

text \<open>
  \<open>AppendDone\<close> drops what \<open>PWrite\<close> returns; a panic inside \<open>PWrite\<close> leaves
  \<open>AppendDone\<close> before the \<open>Reset\<close>.
\<close>

definition AppendDone :: "LogPriority \<Rightarrow> Logger \<times> heap \<Rightarrow> failure option \<times> Logger \<times> heap" where
  "AppendDone q lh =
     (let l = fst lh; (x, r') = PWrite q (Bytes (aBuf l)) (lbuf l) in
      case x of
        Inl e \<Rightarrow> (Some e, l\<lparr>lbuf := r'\<rparr>, snd lh)
      | Inr _ \<Rightarrow> (None, l\<lparr>lbuf := r', aBuf := Reset (aBuf l)\<rparr>, snd lh))"

definition Print :: "LogPriority \<Rightarrow> string \<Rightarrow> Logger \<times> heap \<Rightarrow> failure option \<times> Logger \<times> heap" where
  "Print q s lh =
     (let l = fst lh; (b, h') = bytes_of s (snd lh); (x, r') = PWrite q b (lbuf l) in
      (case x of Inl e \<Rightarrow> Some e | Inr _ \<Rightarrow> None, l\<lparr>lbuf := r'\<rparr>, h'))"

definition GetBuffer :: "Logger \<Rightarrow> RingBuffer" where
  "GetBuffer l = lbuf l"

text \<open>\<open>l.GetBuffer().Pop()\<close>: the store is shared, so the Logger sees the popped state.\<close>

definition PopL :: "Logger \<times> heap \<Rightarrow> (failure + string) \<times> Logger \<times> heap" where
  "PopL lh =
     (let (x, r') = Pop (snd lh) (GetBuffer (fst lh)) in (x, (fst lh)\<lparr>lbuf := r'\<rparr>, snd lh))"

definition PrintDef :: "string \<Rightarrow> Logger \<times> heap \<Rightarrow> failure option \<times> Logger \<times> heap" where
  "PrintDef s lh = Print (GetPriority (lbuf (fst lh))) s lh"

definition Println :: "LogPriority \<Rightarrow> string \<Rightarrow> Logger \<times> heap \<Rightarrow> failure option \<times> Logger \<times> heap" where
  "Println q s lh = Print q (s @ [CHR 0x0A]) lh"

definition Lock :: "Logger \<Rightarrow> failure + Logger" where
  "Lock l = (if llock l then Inl BlockedOnLock else Inr (l\<lparr>llock := True\<rparr>))"

definition Unlock :: "Logger \<Rightarrow> failure + Logger" where
  "Unlock l = (if llock l then Inr (l\<lparr>llock := False\<rparr>) else Inl UnlockOfUnlockedMutex)"

text \<open>
  The body of a goroutine of \<open>testLoggerConcurrentAppend\<close>, with the fragments and the
  priority as arguments: \<open>Lock\<close>, one \<open>Append\<close> for each fragment, \<open>AppendDone\<close>, and
  the deferred \<open>Unlock\<close>. The mutex lets one goroutine at a time run this body, so a
  test run is a sequence of sessions.
\<close>

definition session ::
  "policy \<Rightarrow> string list \<Rightarrow> LogPriority \<Rightarrow> Logger \<times> heap \<Rightarrow> failure + Logger \<times> heap" where
  "session policy fs q lh =
     (case Lock (fst lh) of
        Inl e \<Rightarrow> Inl e
      | Inr l1 \<Rightarrow>
          let lh2 = foldl (\<lambda>s f. Append policy f s) (l1, snd lh) fs;
              (x, lh3) = AppendDone q lh2
          in (case x of
                Some e \<Rightarrow> Inl e
              | None \<Rightarrow>
                  (case Unlock (fst lh3) of
                     Inl e \<Rightarrow> Inl e
                   | Inr l4 \<Rightarrow> Inr (l4, snd lh3))))"

fun sessions ::
  "policy \<Rightarrow> string list list \<Rightarrow> LogPriority \<Rightarrow> Logger \<times> heap \<Rightarrow> failure + Logger \<times> heap" where
  "sessions policy [] q lh = Inr lh"
| "sessions policy (fs # fss) q lh =
     (case session policy fs q lh of
        Inl e \<Rightarrow> Inl e
      | Inr lh' \<Rightarrow> sessions policy fss q lh')"

text \<open>The results of \<open>n\<close> calls of \<open>l.GetBuffer().Pop()\<close>.\<close>

fun pops :: "nat \<Rightarrow> Logger \<times> heap \<Rightarrow> (failure + string) list" where
  "pops 0 lh = []"
| "pops (Suc n) lh = (let (x, lh') = PopL lh in x # pops n lh')"

section \<open>The test of overflow, with the capacity as its parameter\<close>

text \<open>
  \<open>testRingBufferOverflow\<close> writes the entries "0" to "6" with \<open>Write\<close> into a store
  of default priority \<open>Minor\<close> and pops six times. The test builds its store with
  capacity 5; here the capacity is the argument, and the result is what the six \<open>Pop\<close>s
  return.
\<close>

definition digits :: heap where
  "digits = [''0'', ''1'', ''2'', ''3'', ''4'', ''5'', ''6'']"

definition testRingBufferOverflow :: "int \<Rightarrow> (failure + string) list" where
  "testRingBufferOverflow sz =
     popped (fst (run digits
       [CallWrite (whole digits 0), CallWrite (whole digits 1), CallWrite (whole digits 2),
        CallWrite (whole digits 3), CallWrite (whole digits 4), CallWrite (whole digits 5),
        CallWrite (whole digits 6),
        CallPop, CallPop, CallPop, CallPop, CallPop, CallPop]
       (NewRingBuffer Minor sz)))"

section \<open>Predicates for the proofs\<close>

text \<open>
  \<open>ring_ok\<close> is the representation invariant of a ring. \<open>behind g\<close> lists the values of
  the cycle as \<open>Prev\<close> meets them: first the element just behind the cursor, last the
  element under the cursor. \<open>store_ok\<close> holds of the stores a positive capacity gives:
  the mutex free between calls and no nil ring in the map; \<open>rings_ok\<close> says that every
  ring of the map satisfies \<open>ring_ok\<close>. \<open>solo q C v\<close> holds of a store
  whose only ring is the one of rank \<open>q\<close>, with \<open>C\<close> elements that read \<open>v\<close> going
  backward, and whose \<open>highP\<close> is \<open>q\<close>.
\<close>

definition ring_ok :: "Ring \<Rightarrow> bool" where
  "ring_ok g \<longleftrightarrow> cur g < length (slots g)"

definition behind :: "Ring \<Rightarrow> bslice option list" where
  "behind g = rev (rotate (cur g) (slots g))"

definition store_ok :: "RingBuffer \<Rightarrow> bool" where
  "store_ok r \<longleftrightarrow> \<not> lock r \<and> 0 < bufCap r \<and> (\<forall>i. buf r i \<noteq> Some None)"

definition rings_ok :: "RingBuffer \<Rightarrow> bool" where
  "rings_ok r \<longleftrightarrow> (\<forall>i g. buf r i = Some (Some g) \<longrightarrow> ring_ok g)"

text \<open>The value a \<open>Pop\<close> would read from the ring of rank \<open>q\<close>: the one behind its cursor.\<close>

definition newest :: "RingBuffer \<Rightarrow> int \<Rightarrow> bslice option" where
  "newest r q = (case buf_at r q of None \<Rightarrow> None | Some g \<Rightarrow> Value (Prev g))"

text \<open>
  The store seen as one stack of unread entries for each rank, the newest on top: \<open>S i\<close>
  is the stack of rank \<open>i\<close>. \<open>filled C xs\<close> is how a ring of \<open>C\<close> elements holding the
  stack \<open>xs\<close> reads going backward from its cursor. \<open>rel C S r\<close> says that the store
  \<open>r\<close> of capacity \<open>C\<close> holds exactly the stacks \<open>S\<close> and that no rank above \<open>highP\<close>
  holds an entry.
\<close>

definition filled :: "nat \<Rightarrow> bslice list \<Rightarrow> bslice option list" where
  "filled C xs = map Some xs @ replicate (C - length xs) None"

definition rel :: "nat \<Rightarrow> (int \<Rightarrow> bslice list) \<Rightarrow> RingBuffer \<Rightarrow> bool" where
  "rel C S r \<longleftrightarrow>
     \<not> lock r \<and> bufCap r = int C \<and> 0 < C \<and> 0 \<le> highP r \<and>
     (\<forall>i. highP r < i \<longrightarrow> S i = []) \<and>
     (\<forall>i. case buf r i of
            None \<Rightarrow> S i = []
          | Some None \<Rightarrow> False
          | Some (Some g) \<Rightarrow> ring_ok g \<and> length (S i) \<le> C \<and> behind g = filled C (S i))"



section \<open>Rings: what the cursor moves do to the values behind it\<close>

lemma length_behind [simp]: "length (behind g) = length (slots g)"
  by (simp add: behind_def)

lemma ring_ok_pos: "ring_ok g \<Longrightarrow> 0 < length (slots g)"
  unfolding ring_ok_def by linarith

lemma ring_ok_Prev [simp]: "ring_ok g \<Longrightarrow> ring_ok (Prev g)"
  using ring_ok_pos [of g] by (simp add: ring_ok_def Prev_def)

lemma ring_ok_Next [simp]: "ring_ok g \<Longrightarrow> ring_ok (Next g)"
  using ring_ok_pos [of g] by (simp add: ring_ok_def Next_def)

lemma ring_ok_set_Value [simp]: "ring_ok g \<Longrightarrow> ring_ok (set_Value g v)"
  by (simp add: ring_ok_def set_Value_def)

lemma slots_Prev [simp]: "slots (Prev g) = slots g"
  by (simp add: Prev_def)

lemma slots_Next [simp]: "slots (Next g) = slots g"
  by (simp add: Next_def)

lemma length_slots_set_Value [simp]: "length (slots (set_Value g v)) = length (slots g)"
  by (simp add: set_Value_def)

lemma rotate_Suc_pred:
  assumes "c < n" and "n = length xs"
  shows "rotate1 (rotate ((c + n - 1) mod n) xs) = rotate c xs"
proof -
  have "rotate1 (rotate ((c + n - 1) mod n) xs) = rotate (Suc ((c + n - 1) mod n)) xs"
    by simp
  also have "\<dots> = rotate (Suc ((c + n - 1) mod n) mod n) xs"
    using assms by (simp only: rotate_conv_mod [symmetric])
  also have "Suc ((c + n - 1) mod n) mod n = Suc (c + n - 1) mod n"
    by (simp add: mod_Suc_eq)
  also have "Suc (c + n - 1) = c + n" using assms by linarith
  also have "(c + n) mod n = c" using assms by simp
  finally show ?thesis .
qed

lemma behind_Prev: "ring_ok g \<Longrightarrow> behind (Prev g) = rotate1 (behind g)"
proof -
  assume ok: "ring_ok g"
  let ?n = "length (slots g)"
  let ?ys = "rotate ((cur g + ?n - 1) mod ?n) (slots g)"
  have ne: "?ys \<noteq> []" using ok by (auto simp: ring_ok_def)
  have "rotate (cur g) (slots g) = rotate1 ?ys"
    using ok rotate_Suc_pred [of "cur g" ?n "slots g"] by (simp add: ring_ok_def)
  then have "behind g = rev (rotate1 ?ys)" by (simp add: behind_def)
  moreover have "behind (Prev g) = rev ?ys" by (simp add: behind_def Prev_def)
  ultimately show ?thesis using ne by (cases ?ys) simp_all
qed

lemma Value_Prev: "ring_ok g \<Longrightarrow> Value (Prev g) = hd (behind g)"
proof -
  assume ok: "ring_ok g"
  let ?n = "length (slots g)"
  let ?ys = "rotate ((cur g + ?n - 1) mod ?n) (slots g)"
  have ne: "slots g \<noteq> []" using ok by (auto simp: ring_ok_def)
  have "rotate (cur g) (slots g) = rotate1 ?ys"
    using ok rotate_Suc_pred [of "cur g" ?n "slots g"] by (simp add: ring_ok_def)
  then have b: "behind g = rev (rotate1 ?ys)" by (simp add: behind_def)
  have "Value (Prev g) = hd ?ys"
    using ne by (simp add: Value_def Prev_def hd_rotate_conv_nth)
  with b ne show ?thesis by (cases ?ys) simp_all
qed

lemma rotate_update:
  "c < length xs \<Longrightarrow> rotate c (xs[c := v]) = (rotate c xs)[0 := v]"
  by (simp add: rotate_drop_take drop_update_swap list_update_append Cons_nth_drop_Suc [symmetric])

lemma behind_set_Value: "ring_ok g \<Longrightarrow> behind (set_Value g v) = butlast (behind g) @ [v]"
proof -
  assume ok: "ring_ok g"
  then have ne: "rotate (cur g) (slots g) \<noteq> []" by (auto simp: ring_ok_def)
  have "behind (set_Value g v) = rev ((rotate (cur g) (slots g))[0 := v])"
    using ok by (simp add: behind_def set_Value_def rotate_update ring_ok_def)
  with ne show ?thesis by (cases "rotate (cur g) (slots g)") (simp_all add: behind_def)
qed

lemma behind_Next: "ring_ok g \<Longrightarrow> behind (Next g) = last (behind g) # butlast (behind g)"
proof -
  assume ok: "ring_ok g"
  let ?n = "length (slots g)"
  have ne: "rotate (cur g) (slots g) \<noteq> []" using ok by (auto simp: ring_ok_def)
  have "rotate ((cur g + 1) mod ?n) (slots g) = rotate (Suc (cur g)) (slots g)"
    by (simp only: rotate_conv_mod [symmetric] Suc_eq_plus1)
  then have "behind (Next g) = rev (rotate1 (rotate (cur g) (slots g)))"
    by (simp add: behind_def Next_def)
  with ne show ?thesis by (cases "rotate (cur g) (slots g)") (simp_all add: behind_def)
qed


lemma behind_write:
  "ring_ok g \<Longrightarrow> behind (Next (set_Value g (Some b))) = Some b # butlast (behind g)"
  by (simp add: behind_Next behind_set_Value)

lemma behind_take:
  "ring_ok g \<Longrightarrow> behind (set_Value (Prev g) None) = tl (behind g) @ [None]"
  using ring_ok_pos [of g]
  by (cases "behind g") (simp_all add: behind_set_Value behind_Prev)

lemma behind_ring_New:
  "0 < n \<Longrightarrow> \<exists>g. ring_New n = Some g \<and> ring_ok g \<and> int (length (slots g)) = n
      \<and> behind g = replicate (nat n) None"
  by (simp add: ring_New_def ring_ok_def behind_def)


lemma update_highP_fields:
  "update_highP r i = Inr r' \<Longrightarrow>
     buf r' = buf r \<and> lock r' = lock r \<and> bufCap r' = bufCap r \<and> p r' = p r"
proof (induction r i rule: update_highP.induct)
  case (1 r i)
  from "1.prems" show ?case
    apply (subst (asm) update_highP.simps)
    apply (auto split: if_splits option.splits dest: "1.IH")
    done
qed


section \<open>A store with a single ring\<close>


lemma PWrite_on_ring:
  assumes "\<not> lock r" and "buf r q = Some (Some g)"
  shows "PWrite q b r =
    (Inr (len b),
     (raise_highP q r)\<lparr>buf := (buf r)(q \<mapsto> Some (Next (set_Value g (Some b))))\<rparr>)"
  using assms
  by (simp add: PWrite_def raise_highP_def ensure_ring_def buf_at_def
      store_Value_def advance_def Let_def)

lemma PWrite_new_ring:
  assumes "\<not> lock r" and "buf_at r q = None" and "ring_New (bufCap r) = Some g"
  shows "PWrite q b r =
    (Inr (len b),
     (raise_highP q r)\<lparr>buf := (buf r)(q \<mapsto> Some (Next (set_Value g (Some b))))\<rparr>)"
  using assms
  by (simp add: PWrite_def raise_highP_def ensure_ring_def buf_at_def
      store_Value_def advance_def Let_def)















section \<open>Stores of positive capacity\<close>

lemma update_highP_Inl: "update_highP r i = Inl e \<Longrightarrow> e = NilPointerPanic"
proof (induction r i rule: update_highP.induct)
  case (1 r i)
  from "1.prems" show ?case
    apply (subst (asm) update_highP.simps)
    apply (auto split: if_splits option.splits dest: "1.IH")
    done
qed

lemma update_highP_no_nil:
  "\<forall>j. buf r j \<noteq> Some None \<Longrightarrow> \<exists>r'. update_highP r i = Inr r'"
proof (induction r i rule: update_highP.induct)
  case (1 r i)
  show ?case
  proof (cases "0 \<le> i")
    case False
    then show ?thesis by (subst update_highP.simps) simp
  next
    case True
    show ?thesis
    proof (cases "buf r i")
      case None
      with True "1.IH"(1) "1.prems" show ?thesis by (subst update_highP.simps) simp
    next
      case (Some x)
      with "1.prems" obtain g where x: "x = Some g" by (cases x) (auto dest: spec [of _ i])
      show ?thesis
      proof (cases "Value (Prev g) \<noteq> None")
        case True
        with \<open>0 \<le> i\<close> Some x show ?thesis by (subst update_highP.simps) simp
      next
        case False
        with \<open>0 \<le> i\<close> Some x "1.IH"(2) "1.prems" show ?thesis
          by (subst update_highP.simps) simp
      qed
    qed
  qed
qed

lemma Prev_neq:
  assumes "ring_ok g" and "1 < length (slots g)"
  shows "Prev g \<noteq> g"
proof -
  let ?n = "length (slots g)"
  have "(cur g + ?n - 1) mod ?n \<noteq> cur g"
  proof (cases "cur g")
    case 0
    with assms show ?thesis by simp
  next
    case (Suc c)
    with assms have "cur g + ?n - 1 = c + ?n" by simp
    moreover have "c < ?n" using assms Suc by (simp add: ring_ok_def)
    ultimately show ?thesis using Suc by simp
  qed
  then have "cur (Prev g) \<noteq> cur g" by (simp add: Prev_def)
  then show ?thesis by auto
qed

lemma store_ok_New: "0 < sz \<Longrightarrow> store_ok (NewRingBuffer q sz)"
  by (simp add: store_ok_def NewRingBuffer_def)

lemma store_ok_PWrite:
  assumes "store_ok r"
  shows "fst (PWrite q b r) = Inr (len b)" and "store_ok (snd (PWrite q b r))"
proof -
  from assms have r: "\<not> lock r" "0 < bufCap r" "\<forall>i. buf r i \<noteq> Some None"
    by (simp_all add: store_ok_def)
  show "fst (PWrite q b r) = Inr (len b)"
  proof (cases "buf r q")
    case None
    with r show ?thesis
      by (simp add: PWrite_def raise_highP_def ensure_ring_def buf_at_def
        store_Value_def advance_def Let_def ring_New_def)
  next
    case (Some x)
    with r(3) obtain g where "x = Some g" by (cases x) (auto dest: spec [of _ q])
    with Some r show ?thesis
      by (simp add: PWrite_on_ring)
  qed
  show "store_ok (snd (PWrite q b r))"
  proof (cases "buf r q")
    case None
    with r show ?thesis
      by (simp add: PWrite_def raise_highP_def ensure_ring_def buf_at_def
        store_Value_def advance_def Let_def ring_New_def store_ok_def)
  next
    case (Some x)
    with r(3) obtain g where "x = Some g" by (cases x) (auto dest: spec [of _ q])
    with Some r show ?thesis
      by (simp add: PWrite_on_ring store_ok_def raise_highP_def)
  qed
qed

lemma store_ok_Pop:
  assumes "store_ok r"
  shows "store_ok (snd (Pop h r))"
proof -
  from assms have r: "\<not> lock r" "0 < bufCap r" "\<forall>i. buf r i \<noteq> Some None"
    by (simp_all add: store_ok_def)
  show ?thesis
  proof (cases "buf r (highP r)")
    case None
    with assms show ?thesis by (simp add: Pop_def)
  next
    case (Some x)
    with r(3) obtain g where x: "x = Some g" by (cases x) (auto dest: spec [of _ "highP r"])
    show ?thesis
    proof (cases "Value (Prev g)")
      case None
      with Some x r show ?thesis by (simp add: Pop_def Let_def store_ok_def)
    next
      case b: (Some b)
      let ?r2 = "r\<lparr>buf := (buf r)(highP r \<mapsto> Some (set_Value (Prev g) None))\<rparr>"
      have ok2: "store_ok ?r2" using r by (simp add: store_ok_def)
      show ?thesis
      proof (cases "update_highP ?r2 (highP r)")
        case (Inl e)
        with b Some x ok2 show ?thesis by (simp add: Pop_def Let_def)
      next
        case (Inr r3)
        from update_highP_fields [OF Inr] ok2 have "store_ok r3" by (simp add: store_ok_def)
        with Inr b Some x show ?thesis by (simp add: Pop_def Let_def)
      qed
    qed
  qed
qed

lemma store_ok_do_call: "store_ok r \<Longrightarrow> store_ok (snd (do_call h c r))"
  by (cases c)
    (simp_all add: split_def Let_def store_ok_PWrite store_ok_Pop Write_def,
     simp add: store_ok_def SetPriority_def)

lemma store_ok_run: "store_ok r \<Longrightarrow> store_ok (snd (run h cs r))"
  by (induction cs arbitrary: r) (simp_all add: split_def Let_def store_ok_do_call)

section \<open>The mutex and Pop\<close>

lemma update_highP_lock:
  "update_highP (r\<lparr>lock := l\<rparr>) i = map_sum id (\<lambda>r'. r'\<lparr>lock := l\<rparr>) (update_highP r i)"
proof (induction r i rule: update_highP.induct)
  case (1 r i)
  show ?case
  proof (cases "0 \<le> i")
    case False
    then show ?thesis
      by (simp add: update_highP.simps [of r i] update_highP.simps [of "r\<lparr>lock := l\<rparr>" i])
  next
    case True
    show ?thesis
    proof (cases "buf r i")
      case None
      with True "1.IH"(1) show ?thesis
        by (simp add: update_highP.simps [of r i] update_highP.simps [of "r\<lparr>lock := l\<rparr>" i])
    next
      case (Some x)
      show ?thesis
      proof (cases x)
        case None
        with True Some show ?thesis
          by (simp add: update_highP.simps [of r i] update_highP.simps [of "r\<lparr>lock := l\<rparr>" i])
      next
        case g: (Some g)
        with True Some "1.IH"(2) [of x g] show ?thesis
          by (simp add: update_highP.simps [of r i] update_highP.simps [of "r\<lparr>lock := l\<rparr>" i])
      qed
    qed
  qed
qed

lemma Pop_ignores_lock:
  "Pop h (r\<lparr>lock := l\<rparr>) = (fst (Pop h r), (snd (Pop h r))\<lparr>lock := l\<rparr>)"
proof (cases "buf r (highP r)")
  case None
  then show ?thesis by (simp add: Pop_def)
next
  case (Some x)
  show ?thesis
  proof (cases x)
    case None
    with Some show ?thesis by (simp add: Pop_def)
  next
    case g: (Some g)
    show ?thesis
    proof (cases "Value (Prev g)")
      case None
      with Some g show ?thesis by (simp add: Pop_def Let_def)
    next
      case b: (Some b)
      let ?r2 = "r\<lparr>buf := (buf r)(highP r \<mapsto> Some (set_Value (Prev g) None))\<rparr>"
      have sw: "r\<lparr>lock := l, buf := (buf r)(highP r \<mapsto> Some (set_Value (Prev g) None))\<rparr>
          = ?r2\<lparr>lock := l\<rparr>" by simp
      have u: "update_highP (?r2\<lparr>lock := l\<rparr>) (highP r)
          = map_sum id (\<lambda>r'. r'\<lparr>lock := l\<rparr>) (update_highP ?r2 (highP r))"
        by (rule update_highP_lock)
      show ?thesis
      proof (cases "update_highP ?r2 (highP r)")
        case (Inl e)
        with u have "update_highP (?r2\<lparr>lock := l\<rparr>) (highP r) = Inl e" by simp
        with Inl Some g b show ?thesis by (simp add: Pop_def Let_def sw)
      next
        case (Inr r3)
        with u have "update_highP (?r2\<lparr>lock := l\<rparr>) (highP r) = Inr (r3\<lparr>lock := l\<rparr>)" by simp
        with Inr Some g b show ?thesis by (simp add: Pop_def Let_def sw)
      qed
    qed
  qed
qed

section \<open>The store as one stack for each rank\<close>

text \<open>
  A fresh store holds the empty stacks. \<open>PWrite\<close> pushes on the stack of its rank and
  drops what no longer fits the capacity. \<open>Pop\<close> looks at the stack of rank \<open>highP\<close>
  only: when that stack is not empty it returns its top, and then no higher rank holds an
  entry; when it is empty \<open>Pop\<close> fails and leaves every stack as it is, whatever the
  lower ranks hold.
\<close>

lemma filled_push:
  assumes "length xs \<le> C" and "0 < C"
  shows "Some b # butlast (filled C xs) = filled C (take C (b # xs))"
proof (cases "length xs = C")
  case True
  with assms show ?thesis
    by (cases C) (simp_all add: filled_def map_butlast butlast_conv_take take_map)
next
  case False
  with assms obtain k where k: "C - length xs = Suc k" by (cases "C - length xs") auto
  then have "C - Suc (length xs) = k" by simp
  moreover have "take C (b # xs) = b # xs" using assms False by (cases C) simp_all
  ultimately show ?thesis using k
    by (simp add: filled_def butlast_append butlast_conv_take del: replicate_Suc)
qed

lemma filled_pop:
  assumes "length (b # xs) \<le> C"
  shows "tl (filled C (b # xs)) @ [None] = filled C xs"
proof -
  from assms have "C - length xs = Suc (C - Suc (length xs))" by simp
  then show ?thesis by (simp add: filled_def replicate_append_same)
qed

lemma filled_Nil: "filled C [] = replicate C None"
  by (simp add: filled_def)

lemma hd_filled: "0 < C \<Longrightarrow> length xs \<le> C \<Longrightarrow> hd (filled C xs) = (case xs of [] \<Rightarrow> None | x # _ \<Rightarrow> Some x)"
  by (cases xs; cases C) (simp_all add: filled_def)


lemma rel_rings:
  "rel C S r \<Longrightarrow>
     (case buf r i of
        None \<Rightarrow> S i = []
      | Some None \<Rightarrow> False
      | Some (Some g) \<Rightarrow> ring_ok g \<and> length (S i) \<le> C \<and> behind g = filled C (S i))"
  by (simp add: rel_def)

lemma rel_ring:
  assumes "rel C S r" and "buf r i = Some x"
  obtains g where "x = Some g" and "ring_ok g" and "length (S i) \<le> C"
    and "behind g = filled C (S i)"
  using rel_rings [OF assms(1), of i] assms(2) by (cases x) simp_all

lemma rel_absent: "rel C S r \<Longrightarrow> buf r i = None \<Longrightarrow> S i = []"
  using rel_rings [of C S r i] by simp

lemma rel_above: "rel C S r \<Longrightarrow> highP r < i \<Longrightarrow> S i = []"
  by (simp add: rel_def)

lemma rel_fields: "rel C S r \<Longrightarrow> \<not> lock r \<and> bufCap r = int C \<and> 0 < C \<and> 0 \<le> highP r"
  by (simp add: rel_def)

lemma relI:
  assumes "\<not> lock r" and "bufCap r = int C" and "0 < C" and "0 \<le> highP r"
    and "\<And>i. highP r < i \<Longrightarrow> S i = []"
    and "\<And>i. buf r i = None \<Longrightarrow> S i = []"
    and "\<And>i x. buf r i = Some x \<Longrightarrow>
           \<exists>g. x = Some g \<and> ring_ok g \<and> length (S i) \<le> C \<and> behind g = filled C (S i)"
  shows "rel C S r"
proof -
  have "case buf r i of None \<Rightarrow> S i = [] | Some None \<Rightarrow> False
      | Some (Some g) \<Rightarrow> ring_ok g \<and> length (S i) \<le> C \<and> behind g = filled C (S i)" for i
  proof (cases "buf r i")
    case None
    with assms(6) show ?thesis by simp
  next
    case (Some x)
    with assms(7) [OF Some] show ?thesis by auto
  qed
  with assms(1-5) show ?thesis by (simp add: rel_def)
qed

lemma rel_New: "0 < C \<Longrightarrow> rel C (\<lambda>_. []) (NewRingBuffer d (int C))"
  by (rule relI) (simp_all add: NewRingBuffer_def)

lemma rel_PWrite:
  assumes "rel C S r"
  shows "fst (PWrite q b r) = Inr (len b)"
    and "rel C (S(q := take C (b # S q))) (snd (PWrite q b r))"
proof -
  note f = rel_fields [OF assms]
  obtain g where g: "ring_ok g" "length (S q) \<le> C" "behind g = filled C (S q)"
    and P: "PWrite q b r =
      (Inr (len b), (raise_highP q r)\<lparr>buf := (buf r)(q \<mapsto> Some (Next (set_Value g (Some b))))\<rparr>)"
  proof (cases "buf r q")
    case None
    then have S: "S q = []" using assms by (rule rel_absent [rotated])
    from f obtain g where g: "ring_New (bufCap r) = Some g" "ring_ok g"
      "behind g = replicate C None"
      using behind_ring_New [of "bufCap r"] by auto
    from None have "buf_at r q = None" by (simp add: buf_at_def)
    from PWrite_new_ring [OF _ this g(1), of b] f g S that show ?thesis
      by (simp add: filled_Nil)
  next
    case (Some x)
    from rel_ring [OF assms Some] obtain g where g: "x = Some g" "ring_ok g"
      "length (S q) \<le> C" "behind g = filled C (S q)" by blast
    from PWrite_on_ring [of r q g b] f Some g that show ?thesis by simp
  qed
  let ?g' = "Next (set_Value g (Some b))"
  let ?r' = "(raise_highP q r)\<lparr>buf := (buf r)(q \<mapsto> Some ?g')\<rparr>"
  let ?S' = "S(q := take C (b # S q))"
  have g': "ring_ok ?g'" "behind ?g' = filled C (take C (b # S q))"
    using g f by (simp_all add: behind_write filled_push)
  show "fst (PWrite q b r) = Inr (len b)" by (simp add: P)
  have "rel C ?S' ?r'"
  proof (rule relI)
    show "\<not> lock ?r'" "bufCap ?r' = int C" "0 < C" "0 \<le> highP ?r'"
      using f by (simp_all add: raise_highP_def)
    show "?S' i = []" if "highP ?r' < i" for i
      using that rel_above [OF assms, of i] by (simp add: raise_highP_def split: if_splits)
    show "?S' i = []" if "buf ?r' i = None" for i
      using that rel_absent [OF assms, of i] by (simp add: raise_highP_def split: if_splits)
    show "\<exists>g. x = Some g \<and> ring_ok g \<and> length (?S' i) \<le> C \<and> behind g = filled C (?S' i)"
      if "buf ?r' i = Some x" for i x
    proof (cases "i = q")
      case True
      with that g' show ?thesis by (auto simp: raise_highP_def split: if_splits)
    next
      case False
      with that have "buf r i = Some x" by (simp add: raise_highP_def split: if_splits)
      from rel_ring [OF assms this] False show ?thesis by auto
    qed
  qed
  then show "rel C ?S' (snd (PWrite q b r))" by (simp add: P)
qed


lemma Value_Prev_filled:
  assumes "ring_ok g" and "length xs \<le> C" and "behind g = filled C xs" and "0 < C"
  shows "Value (Prev g) = (case xs of [] \<Rightarrow> None | x # _ \<Rightarrow> Some x)"
  using assms by (simp add: Value_Prev hd_filled)

lemma update_highP_rel:
  assumes "\<And>i. case buf r i of
                  None \<Rightarrow> S i = []
                | Some None \<Rightarrow> False
                | Some (Some g) \<Rightarrow> ring_ok g \<and> length (S i) \<le> C \<and> behind g = filled C (S i)"
    and "0 < C"
  shows "(update_highP r i = Inr r \<and> (\<forall>j. 0 \<le> j \<and> j \<le> i \<longrightarrow> S j = []))
       \<or> (\<exists>k. 0 \<le> k \<and> k \<le> i \<and> S k \<noteq> [] \<and> update_highP r i = Inr (r\<lparr>highP := k\<rparr>)
              \<and> (\<forall>j. k < j \<and> j \<le> i \<longrightarrow> S j = []))"
  using assms
proof (induction r i rule: update_highP.induct)
  case (1 r i)
  note rings = "1.prems"(1) [of i]
  show ?case
  proof (cases "0 \<le> i")
    case False
    then have "\<forall>j. 0 \<le> j \<and> j \<le> i \<longrightarrow> S j = []" by auto
    moreover have "update_highP r i = Inr r"
      using False by (simp add: update_highP.simps [of r i])
    ultimately show ?thesis by blast
  next
    case True
    have step: "\<forall>j. 0 \<le> j \<and> j \<le> i \<longrightarrow> S j = []"
      if "S i = []" and "\<forall>j. 0 \<le> j \<and> j \<le> i - 1 \<longrightarrow> S j = []"
    proof (intro allI impI)
      fix j assume "0 \<le> j \<and> j \<le> i"
      then have "j = i \<or> (0 \<le> j \<and> j \<le> i - 1)" by auto
      with that show "S j = []" by auto
    qed
    have step': "\<forall>j. k < j \<and> j \<le> i \<longrightarrow> S j = []"
      if "S i = []" and "\<forall>j. k < j \<and> j \<le> i - 1 \<longrightarrow> S j = []" for k
    proof (intro allI impI)
      fix j assume "k < j \<and> j \<le> i"
      then have "j = i \<or> (k < j \<and> j \<le> i - 1)" by auto
      with that show "S j = []" by auto
    qed
    show ?thesis
    proof (cases "buf r i")
      case None
      with rings have Si: "S i = []" by simp
      have u: "update_highP r i = update_highP r (i - 1)"
        using True None by (simp add: update_highP.simps [of r i])
      from "1.IH"(1) [OF True None "1.prems"] show ?thesis
      proof (elim disjE conjE exE)
        assume "update_highP r (i - 1) = Inr r" "\<forall>j. 0 \<le> j \<and> j \<le> i - 1 \<longrightarrow> S j = []"
        with u step [OF Si] show ?thesis by simp
      next
        fix k assume "0 \<le> k" "k \<le> i - 1" "S k \<noteq> []"
          "update_highP r (i - 1) = Inr (r\<lparr>highP := k\<rparr>)"
          "\<forall>j. k < j \<and> j \<le> i - 1 \<longrightarrow> S j = []"
        with u step' [OF Si, of k] show ?thesis by (intro disjI2 exI [of _ k]) simp
      qed
    next
      case (Some x)
      with rings obtain g where x: "x = Some g" and g: "ring_ok g" "length (S i) \<le> C"
        "behind g = filled C (S i)" by (cases x) simp_all
      have v: "Value (Prev g) = (case S i of [] \<Rightarrow> None | y # _ \<Rightarrow> Some y)"
        using g "1.prems"(2) by (rule Value_Prev_filled)
      show ?thesis
      proof (cases "S i")
        case Nil
        with v have vn: "\<not> Value (Prev g) \<noteq> None" by simp
        have u: "update_highP r i = update_highP r (i - 1)"
          using True Some x vn by (simp add: update_highP.simps [of r i])
        from "1.IH"(2) [OF True Some x vn "1.prems"] show ?thesis
        proof (elim disjE conjE exE)
          assume "update_highP r (i - 1) = Inr r" "\<forall>j. 0 \<le> j \<and> j \<le> i - 1 \<longrightarrow> S j = []"
          with u step [OF Nil] show ?thesis by simp
        next
          fix k assume "0 \<le> k" "k \<le> i - 1" "S k \<noteq> []"
            "update_highP r (i - 1) = Inr (r\<lparr>highP := k\<rparr>)"
            "\<forall>j. k < j \<and> j \<le> i - 1 \<longrightarrow> S j = []"
          with u step' [OF Nil, of k] show ?thesis by (intro disjI2 exI [of _ k]) simp
        qed
      next
        case (Cons y ys)
        with v have "Value (Prev g) \<noteq> None" by simp
        then have "update_highP r i = Inr (r\<lparr>highP := i\<rparr>)"
          using True Some x by (simp add: update_highP.simps [of r i])
        with True Cons show ?thesis by (intro disjI2 exI [of _ i]) auto
      qed
    qed
  qed
qed


lemma rel_highest: "rel C S r \<Longrightarrow> S i \<noteq> [] \<Longrightarrow> i \<le> highP r"
  using rel_above [of C S r i] by (cases "highP r < i") simp_all

lemma rel_Pop_entry:
  assumes "rel C S r" and "S (highP r) = b # bs"
  shows "fst (Pop h r) = Inr (string_of h b)"
    and "rel C (S(highP r := bs)) (snd (Pop h r))"
proof -
  note f = rel_fields [OF assms(1)]
  let ?q = "highP r"
  let ?S' = "S(?q := bs)"
  obtain x where x: "buf r ?q = Some x"
    using rel_absent [OF assms(1), of ?q] assms(2) by (cases "buf r ?q") simp_all
  from rel_ring [OF assms(1) x] obtain g where g: "x = Some g" "ring_ok g"
    "length (S ?q) \<le> C" "behind g = filled C (S ?q)" by blast
  from g f assms(2) have v: "Value (Prev g) = Some b"
    using Value_Prev_filled [of g "S ?q" C] by simp
  let ?g2 = "set_Value (Prev g) None"
  let ?r2 = "r\<lparr>buf := (buf r)(?q \<mapsto> Some ?g2)\<rparr>"
  have g2: "ring_ok ?g2" "behind ?g2 = filled C bs" "length bs \<le> C"
    using g assms(2) filled_pop [of b bs C] by (simp_all add: behind_take)
  have rings2: "case buf ?r2 i of
        None \<Rightarrow> ?S' i = []
      | Some None \<Rightarrow> False
      | Some (Some g) \<Rightarrow> ring_ok g \<and> length (?S' i) \<le> C \<and> behind g = filled C (?S' i)" for i
  proof (cases "i = ?q")
    case True
    with g2 show ?thesis by simp
  next
    case False
    with rel_rings [OF assms(1), of i] show ?thesis by (simp cong: option.case_cong)
  qed
  have P: "Pop h r = (case update_highP ?r2 ?q of
              Inl e \<Rightarrow> (Inl e, ?r2) | Inr r3 \<Rightarrow> (Inr (string_of h b), r3))"
    using x g v by (simp add: Pop_def Let_def cong: sum.case_cong)
  from update_highP_rel [where r = ?r2 and S = ?S' and C = C and i = ?q, OF rings2] f
  consider (same) "update_highP ?r2 ?q = Inr ?r2"
    | (lower) k where "0 \<le> k" "k \<le> ?q" "update_highP ?r2 ?q = Inr (?r2\<lparr>highP := k\<rparr>)"
        "\<forall>j. k < j \<and> j \<le> ?q \<longrightarrow> ?S' j = []"
    by blast
  then have "fst (Pop h r) = Inr (string_of h b) \<and> rel C ?S' (snd (Pop h r))"
  proof cases
    case same
    have "rel C ?S' ?r2"
    proof (rule relI)
      show "\<not> lock ?r2" "bufCap ?r2 = int C" "0 < C" "0 \<le> highP ?r2" using f by simp_all
      show "?S' i = []" if "highP ?r2 < i" for i
        using that rel_above [OF assms(1), of i] by simp
      show "?S' i = []" if "buf ?r2 i = None" for i
        using rings2 [of i] that by simp
      show "\<exists>g. x = Some g \<and> ring_ok g \<and> length (?S' i) \<le> C \<and> behind g = filled C (?S' i)"
        if "buf ?r2 i = Some x" for i x
        using rings2 [of i] that by (cases x) simp_all
    qed
    with same show ?thesis by (simp add: P)
  next
    case lower
    let ?r3 = "?r2\<lparr>highP := k\<rparr>"
    have "rel C ?S' ?r3"
    proof (rule relI)
      show "\<not> lock ?r3" "bufCap ?r3 = int C" "0 < C" "0 \<le> highP ?r3"
        using f lower by simp_all
      show "?S' i = []" if "highP ?r3 < i" for i
      proof (cases "i \<le> ?q")
        case True
        with that lower(4) show ?thesis by simp
      next
        case False
        with rel_above [OF assms(1), of i] show ?thesis by simp
      qed
      show "?S' i = []" if "buf ?r3 i = None" for i
        using rings2 [of i] that by simp
      show "\<exists>g. x = Some g \<and> ring_ok g \<and> length (?S' i) \<le> C \<and> behind g = filled C (?S' i)"
        if "buf ?r3 i = Some x" for i x
        using rings2 [of i] that by (cases x) simp_all
    qed
    with lower(3) show ?thesis by (simp add: P)
  qed
  then show "fst (Pop h r) = Inr (string_of h b)" and "rel C ?S' (snd (Pop h r))"
    by simp_all
qed

lemma rotate1_replicate: "rotate1 (replicate n x) = replicate n x"
  by (cases n) (simp_all add: replicate_append_same)

lemma rel_Pop_nothing:
  assumes "rel C S r" and "S (highP r) = []"
  shows "fst (Pop h r) = Inl BufferIsEmpty \<or> fst (Pop h r) = Inl PopTypeAssertionFailed"
    and "rel C S (snd (Pop h r))"
proof -
  note f = rel_fields [OF assms(1)]
  let ?q = "highP r"
  have "(fst (Pop h r) = Inl BufferIsEmpty \<or> fst (Pop h r) = Inl PopTypeAssertionFailed)
      \<and> rel C S (snd (Pop h r))"
  proof (cases "buf r ?q")
    case None
    with assms(1) show ?thesis by (simp add: Pop_def)
  next
    case (Some x)
    from rel_ring [OF assms(1) Some] obtain g where g: "x = Some g" "ring_ok g"
      "length (S ?q) \<le> C" "behind g = filled C (S ?q)" by blast
    from g f assms(2) have v: "Value (Prev g) = None"
      using Value_Prev_filled [of g "S ?q" C] by simp
    let ?r1 = "r\<lparr>buf := (buf r)(?q \<mapsto> Some (Prev g))\<rparr>"
    have P: "Pop h r = (Inl PopTypeAssertionFailed, ?r1)"
      using Some g v by (simp add: Pop_def Let_def)
    have b1: "behind (Prev g) = filled C (S ?q)"
      using g assms(2) by (simp add: behind_Prev filled_Nil rotate1_replicate)
    have "rel C S ?r1"
    proof (rule relI)
      show "\<not> lock ?r1" "bufCap ?r1 = int C" "0 < C" "0 \<le> highP ?r1" using f by simp_all
      show "S i = []" if "highP ?r1 < i" for i
        using that rel_above [OF assms(1), of i] by simp
      show "S i = []" if "buf ?r1 i = None" for i
        using that rel_absent [OF assms(1), of i] by (simp split: if_splits)
      show "\<exists>g. x = Some g \<and> ring_ok g \<and> length (S i) \<le> C \<and> behind g = filled C (S i)"
        if "buf ?r1 i = Some x" for i x
      proof (cases "i = ?q")
        case True
        with that g b1 show ?thesis by auto
      next
        case False
        with that have "buf r i = Some x" by simp
        from rel_ring [OF assms(1) this] show ?thesis by auto
      qed
    qed
    then show ?thesis by (simp add: P)
  qed
  then show "fst (Pop h r) = Inl BufferIsEmpty \<or> fst (Pop h r) = Inl PopTypeAssertionFailed"
    and "rel C S (snd (Pop h r))" by simp_all
qed

text \<open>
  Every store the interface reaches from \<open>NewRingBuffer\<close> with a positive capacity holds
  some stacks in this way, so each of its rings is a cycle of as many elements as the
  capacity. What the two errors of \<open>Pop\<close> leave behind follows from its definition; the
  step back of the cursor gives the same store exactly when \<open>Prev\<close> gives the same
  element.
\<close>

lemma length_filled: "length xs \<le> C \<Longrightarrow> length (filled C xs) = C"
  by (simp add: filled_def)

lemma rel_SetPriority: "rel C S r \<Longrightarrow> rel C S (SetPriority q r)"
  by (simp add: rel_def SetPriority_def)

lemma rel_do_call:
  assumes "rel C S r"
  shows "\<exists>S'. rel C S' (snd (do_call h c r))"
proof (cases c)
  case (CallPWrite q b)
  with rel_PWrite(2) [OF assms, of q b] show ?thesis
    by (auto simp: split_def Let_def)
next
  case (CallWrite b)
  with rel_PWrite(2) [OF assms, of "GetPriority r" b] show ?thesis
    by (auto simp: split_def Let_def Write_def)
next
  case CallPop
  show ?thesis
  proof (cases "S (highP r)")
    case Nil
    with rel_Pop_nothing(2) [OF assms, of h] CallPop show ?thesis
      by (auto simp: split_def Let_def)
  next
    case (Cons b bs)
    with rel_Pop_entry(2) [OF assms, of b bs h] CallPop show ?thesis
      by (auto simp: split_def Let_def)
  qed
next
  case CallGetPriority
  with assms show ?thesis by auto
next
  case (CallSetPriority q)
  with rel_SetPriority [OF assms, of q] show ?thesis by auto
qed

lemma rel_run:
  "rel C S r \<Longrightarrow> \<exists>S'. rel C S' (snd (run h cs r))"
proof (induction cs arbitrary: S r)
  case Nil
  then show ?case by auto
next
  case (Cons c cs)
  from rel_do_call [OF Cons.prems, of h c] obtain S1 where "rel C S1 (snd (do_call h c r))"
    by blast
  from Cons.IH [OF this] show ?case by (simp add: split_def Let_def)
qed

lemma reached_rings:
  assumes "0 < C" and "buf (snd (run h cs (NewRingBuffer d (int C)))) i = Some x"
  obtains g where "x = Some g" and "ring_ok g" and "length (slots g) = C"
proof -
  from rel_run [OF rel_New [OF assms(1), of d], of h cs] obtain S
    where S: "rel C S (snd (run h cs (NewRingBuffer d (int C))))" by blast
  from rel_ring [OF S assms(2)] obtain g where g: "x = Some g" "ring_ok g"
    "length (S i) \<le> C" "behind g = filled C (S i)" by blast
  from g(3,4) have "length (slots g) = C"
    using length_behind [of g] by (simp add: length_filled)
  with g that show thesis by blast
qed

lemma Prev_one: "ring_ok g \<Longrightarrow> length (slots g) = 1 \<Longrightarrow> Prev g = g"
  by (simp add: ring_ok_def Prev_def)

lemma step_back_same:
  assumes "buf r q = Some (Some g)"
  shows "r\<lparr>buf := (buf r)(q \<mapsto> Some (Prev g))\<rparr> = r \<longleftrightarrow> Prev g = g"
proof
  assume "r\<lparr>buf := (buf r)(q \<mapsto> Some (Prev g))\<rparr> = r"
  then have "buf (r\<lparr>buf := (buf r)(q \<mapsto> Some (Prev g))\<rparr>) q = buf r q" by simp
  with assms show "Prev g = g" by simp
next
  assume "Prev g = g"
  with assms have "(buf r)(q \<mapsto> Some (Prev g)) = buf r" by (simp add: map_upd_triv)
  then show "r\<lparr>buf := (buf r)(q \<mapsto> Some (Prev g))\<rparr> = r" by simp
qed

lemma Pop_errors:
  "(fst (Pop h r) = Inl BufferIsEmpty \<longleftrightarrow> buf r (highP r) = None) \<and>
   (fst (Pop h r) = Inl BufferIsEmpty \<longrightarrow> snd (Pop h r) = r) \<and>
   (fst (Pop h r) = Inl PopTypeAssertionFailed \<longrightarrow>
      (\<exists>g. buf r (highP r) = Some (Some g) \<and> Value (Prev g) = None \<and>
           snd (Pop h r) = r\<lparr>buf := (buf r)(highP r \<mapsto> Some (Prev g))\<rparr>))"
proof (cases "buf r (highP r)")
  case None
  then show ?thesis by (simp add: Pop_def)
next
  case (Some x)
  show ?thesis
  proof (cases x)
    case None
    with Some show ?thesis by (simp add: Pop_def)
  next
    case g: (Some g)
    show ?thesis
    proof (cases "Value (Prev g)")
      case None
      with Some g show ?thesis by (simp add: Pop_def Let_def)
    next
      case b: (Some b)
      let ?r2 = "r\<lparr>buf := (buf r)(highP r \<mapsto> Some (set_Value (Prev g) None))\<rparr>"
      show ?thesis
      proof (cases "update_highP ?r2 (highP r)")
        case (Inl e)
        then have "e = NilPointerPanic" by (rule update_highP_Inl)
        with Inl b Some g show ?thesis by (simp add: Pop_def Let_def)
      next
        case (Inr r3)
        with b Some g show ?thesis by (simp add: Pop_def Let_def)
      qed
    qed
  qed
qed

section \<open>The accumulator, and what a session commits\<close>

text \<open>
  \<open>WriteString\<close> appends, whichever way it finds the room. A session that starts with
  an empty accumulator therefore commits the concatenation of its fragments: right after
  the session the newest entry of its priority reads that concatenation, and the
  accumulator is empty again.
\<close>

lemma WriteString_appends:
  assumes "arr b < length h" and "len b \<le> cap h b"
    and "WriteString policy s (b, h) = (b', h')"
  shows "string_of h' b' = string_of h b @ s"
    and "arr b' < length h'" and "len b' \<le> cap h' b'"
  using assms
  by (auto simp: WriteString_def string_of_def cap_def Let_def nth_append min_def
      split: if_splits)

lemma Append_appends:
  assumes "arr (aBuf l) < length h" and "len (aBuf l) \<le> cap h (aBuf l)"
    and "Append policy s (l, h) = (l', h')"
  shows "string_of h' (aBuf l') = string_of h (aBuf l) @ s"
    and "arr (aBuf l') < length h'" and "len (aBuf l') \<le> cap h' (aBuf l')"
    and "lbuf l' = lbuf l" and "llock l' = llock l"
  using assms WriteString_appends [of "aBuf l" h policy s]
  by (auto simp: Append_def split_def Let_def)

lemma foldl_Append_concat:
  assumes "arr (aBuf l) < length h" and "len (aBuf l) \<le> cap h (aBuf l)"
    and "foldl (\<lambda>s f. Append policy f s) (l, h) fs = (l', h')"
  shows "string_of h' (aBuf l') = string_of h (aBuf l) @ concat fs
       \<and> arr (aBuf l') < length h' \<and> len (aBuf l') \<le> cap h' (aBuf l')
       \<and> lbuf l' = lbuf l \<and> llock l' = llock l"
  using assms
proof (induction fs arbitrary: l h)
  case Nil
  then show ?case by simp
next
  case (Cons f fs)
  obtain l1 h1 where a: "Append policy f (l, h) = (l1, h1)" by (cases "Append policy f (l, h)")
  from Append_appends [OF Cons.prems(1,2) a]
  have 1: "string_of h1 (aBuf l1) = string_of h (aBuf l) @ f"
    "arr (aBuf l1) < length h1" "len (aBuf l1) \<le> cap h1 (aBuf l1)" "lbuf l1 = lbuf l"
    "llock l1 = llock l" by auto
  from Cons.prems(3) a have "foldl (\<lambda>s f. Append policy f s) (l1, h1) fs = (l', h')" by simp
  from Cons.IH [OF 1(2,3) this] 1 show ?case by simp
qed

lemma rings_ok_New: "rings_ok (NewRingBuffer q sz)"
  by (simp add: rings_ok_def NewRingBuffer_def)

lemma PWrite_newest:
  assumes "store_ok r" and "rings_ok r"
  shows "newest (snd (PWrite q b r)) q = Some b" and "rings_ok (snd (PWrite q b r))"
proof -
  from assms have r: "\<not> lock r" "0 < bufCap r" "\<forall>i. buf r i \<noteq> Some None"
    by (simp_all add: store_ok_def)
  obtain g where g: "ring_ok g" and P: "PWrite q b r =
    (Inr (len b), (raise_highP q r)\<lparr>buf := (buf r)(q \<mapsto> Some (Next (set_Value g (Some b))))\<rparr>)"
  proof (cases "buf r q")
    case None
    from r(2) obtain g where g: "ring_New (bufCap r) = Some g" "ring_ok g"
      using behind_ring_New [of "bufCap r"] by auto
    from None have "buf_at r q = None" by (simp add: buf_at_def)
    from PWrite_new_ring [OF r(1) this g(1)] g(2) that show ?thesis by blast
  next
    case (Some x)
    with r(3) obtain g where x: "x = Some g" by (cases x) (auto dest: spec [of _ q])
    with Some assms(2) have "ring_ok g" by (simp add: rings_ok_def)
    with PWrite_on_ring [OF r(1), of q g b] Some x that show ?thesis by blast
  qed
  have "Value (Prev (Next (set_Value g (Some b)))) = Some b"
    using g by (simp add: Value_Prev behind_write)
  then show "newest (snd (PWrite q b r)) q = Some b"
    by (simp add: P newest_def buf_at_def)
  show "rings_ok (snd (PWrite q b r))"
    using assms(2) g by (simp add: P rings_ok_def raise_highP_def)
qed

lemma session_commits:
  assumes "store_ok (lbuf l)" and "rings_ok (lbuf l)" and "\<not> llock l"
    and "arr (aBuf l) < length h" and "len (aBuf l) = 0"
  shows "\<exists>l' h' b. session policy fs q (l, h) = Inr (l', h')
           \<and> newest (lbuf l') q = Some b \<and> string_of h' b = concat fs
           \<and> len (aBuf l') = 0 \<and> arr (aBuf l') < length h' \<and> \<not> llock l'
           \<and> store_ok (lbuf l') \<and> rings_ok (lbuf l')"
proof -
  let ?l1 = "l\<lparr>llock := True\<rparr>"
  obtain l2 h2 where f: "foldl (\<lambda>s f. Append policy f s) (?l1, h) fs = (l2, h2)"
    by (cases "foldl (\<lambda>s f. Append policy f s) (?l1, h) fs")
  from assms(4,5) have pre: "arr (aBuf ?l1) < length h" "len (aBuf ?l1) \<le> cap h (aBuf ?l1)"
    by simp_all
  from foldl_Append_concat [OF pre f] assms(5)
  have 2: "string_of h2 (aBuf l2) = concat fs" "arr (aBuf l2) < length h2"
    "lbuf l2 = lbuf l" "llock l2" by (simp_all add: string_of_def)
  let ?r' = "snd (PWrite q (aBuf l2) (lbuf l))"
  have w: "fst (PWrite q (aBuf l2) (lbuf l)) = Inr (len (aBuf l2))" "store_ok ?r'"
    using store_ok_PWrite [OF assms(1)] by simp_all
  have n: "newest ?r' q = Some (aBuf l2)" "rings_ok ?r'"
    using PWrite_newest [OF assms(1,2)] by simp_all
  let ?l' = "l2\<lparr>lbuf := ?r', aBuf := Reset (aBuf l2), llock := False\<rparr>"
  have "session policy fs q (l, h) = Inr (?l', h2)"
    using assms(3) f 2 w(1)
    by (simp add: session_def Lock_def Unlock_def AppendDone_def Bytes_def split_def Let_def)
  moreover have "newest (lbuf ?l') q = Some (aBuf l2)" using n by simp
  moreover have "len (aBuf ?l') = 0" "arr (aBuf ?l') < length h2" "\<not> llock ?l'"
    using 2 by (simp_all add: Reset_def)
  moreover have "store_ok (lbuf ?l')" "rings_ok (lbuf ?l')" using w n by simp_all
  ultimately show ?thesis using 2(1) by blast
qed

section \<open>The repository's tests, on the model\<close>

text \<open>
  \<open>testRingBufferPop\<close> and \<open>testLoggerConcurrentAppend\<close> pass on the model: the
  priorities come out highest first and newest first, and five sessions that all append
  "n", "e", "m", "o" leave three entries "nemo" in a store of capacity 3.
\<close>

lemma testRingBufferPop_passes:
  "(let h = [''major0'', ''minor0'', ''trivial0'', ''critical0'',
             ''major1'', ''minor1'', ''critical1'', ''trivial1'']
    in popped (fst (run h
         [CallPWrite Major (whole h 0), CallWrite (whole h 1), CallPWrite Trivial (whole h 2),
          CallPWrite Critical (whole h 3), CallPWrite Major (whole h 4), CallWrite (whole h 5),
          CallPWrite Critical (whole h 6), CallPWrite Trivial (whole h 7),
          CallPop, CallPop, CallPop, CallPop, CallPop, CallPop, CallPop, CallPop]
         (NewRingBuffer Minor 3)))
     = [Inr ''critical1'', Inr ''critical0'', Inr ''major1'', Inr ''major0'',
        Inr ''minor1'', Inr ''minor0'', Inr ''trivial1'', Inr ''trivial0''])"
  by code_simp

lemma testLoggerConcurrentAppend_passes:
  "(case sessions go_policy (replicate 5 [''n'', ''e'', ''m'', ''o'']) Major
           (NewLogger (NewRingBuffer Minor 3) []) of
      Inl e \<Rightarrow> False
    | Inr lh \<Rightarrow> pops 4 lh
        = [Inr ''nemo'', Inr ''nemo'', Inr ''nemo'', Inl PopTypeAssertionFailed])"
  by code_simp

section \<open>Order of the entries Pop returns\<close>

text \<open>
  Claim C1. \<open>Pop\<close> is to return the newest unread entry of the highest priority that
  holds one, whenever some priority holds one. It does not after a drain: with capacity 3,
  write "critical0" at \<open>Critical\<close>, pop it, write "major0" at \<open>Major\<close>. \<open>highP\<close> is
  still \<open>Critical\<close>, whose ring is empty, so the next \<open>Pop\<close> and the one after it fail
  with the type-assertion error while "major0" sits unread behind the cursor of the
  \<open>Major\<close> ring.
\<close>

theorem Pop_misses_lower_priority_entry:
  "(let h = [''critical0'', ''major0''];
        (xs, r) = run h [CallPWrite Critical (whole h 0), CallPop,
                         CallPWrite Major (whole h 1), CallPop, CallPop]
                    (NewRingBuffer Minor 3)
    in xs = [Wrote (Inr 9), Popped (Inr ''critical0''), Wrote (Inr 6),
             Popped (Inl PopTypeAssertionFailed), Popped (Inl PopTypeAssertionFailed)]
     \<and> map_option behind (buf_at r Major) = Some [Some (whole h 1), None, None]
     \<and> highP r = Critical)"
  by code_simp

text \<open>
  \<open>LogPriority\<close> is an \<open>int\<close>, and a rank below 0 is never looked at: \<open>highP\<close> starts
  at 0, \<open>PWrite\<close> only raises it, and the loop of \<open>Pop\<close> stops at rank 0. An entry written
  at rank \<open>-1\<close> into a fresh store stays unread.
\<close>

lemma Pop_never_reads_negative_rank:
  "(let h = [''x''];
        (xs, r) = run h [CallPWrite (- 1) (whole h 0), CallPop] (NewRingBuffer Minor 3)
    in xs = [Wrote (Inr 1), Popped (Inl BufferIsEmpty)]
     \<and> map_option behind (buf_at r (- 1)) = Some [Some (whole h 0), None, None]
     \<and> highP r = 0)"
  by code_simp

section \<open>Pop on a store with nothing to read\<close>

text \<open>
  Claim C2. A store with nothing to read is to answer \<open>Pop\<close> with the empty-buffer error
  until a write, and the \<open>Pop\<close> after a write is to succeed. A drained store answers with
  the type-assertion error instead, and after a write at \<open>Trivial\<close> below the stale
  \<open>highP = Minor\<close> the next \<open>Pop\<close> fails again.
\<close>

theorem Pop_on_drained_store:
  "(let h = [''a'', ''b'']
    in fst (run h [CallWrite (whole h 0), CallPop, CallPop, CallPop,
                   CallPWrite Trivial (whole h 1), CallPop]
              (NewRingBuffer Minor 3))
     = [Wrote (Inr 1), Popped (Inr ''a''),
        Popped (Inl PopTypeAssertionFailed), Popped (Inl PopTypeAssertionFailed),
        Wrote (Inr 1), Popped (Inl PopTypeAssertionFailed)])"
  by code_simp

section \<open>The field highP\<close>

text \<open>
  Claim C3. \<open>highP\<close> is to be the highest rank holding an unread entry after every call,
  and 0 when the loop of \<open>Pop\<close> finds none. After one write at \<open>Minor\<close> and its \<open>Pop\<close>
  no rank holds an entry and \<open>highP\<close> is \<open>Minor\<close>, not 0; after a further write at
  \<open>Trivial\<close> the only unread entry is at rank 0 and \<open>highP\<close> is still \<open>Minor\<close>.
\<close>

theorem highP_stale_after_drain:
  "(let h = [''a'', ''b''];
        r1 = snd (run h [CallWrite (whole h 0), CallPop] (NewRingBuffer Minor 3));
        r2 = snd (run h [CallPWrite Trivial (whole h 1)] r1)
    in highP r1 = Minor
     \<and> map (\<lambda>i. map_option behind (buf_at r1 i)) [Trivial, Minor, Major, Critical]
         = [None, Some [None, None, None], None, None]
     \<and> highP r2 = Minor
     \<and> map (\<lambda>i. map_option behind (buf_at r2 i)) [Trivial, Minor, Major, Critical]
         = [Some [Some (whole h 1), None, None], Some [None, None, None], None, None])"
  by code_simp

section \<open>The type-assertion error\<close>

text \<open>
  Claim C4. No \<open>Pop\<close> is to return the type-assertion error under the public interface.
  The second \<open>Pop\<close> after a single \<open>Write\<close> returns it.
\<close>

theorem Pop_type_assertion_reachable:
  "(let h = [''nemo'']
    in fst (run h [CallGetPriority, CallWrite (whole h 0), CallSetPriority Major,
                   CallPop, CallPop]
              (NewRingBuffer Minor 3))
     = [Got Minor, Wrote (Inr 4), Returned, Popped (Inr ''nemo''),
        Popped (Inl PopTypeAssertionFailed)])"
  by code_simp

section \<open>Entries committed by AppendDone\<close>

text \<open>
  Claim C5. An entry committed by \<open>AppendDone\<close> is to keep its content while later sessions
  append and commit. \<open>AppendDone\<close> stores the accumulator's own slice and \<open>Reset\<close> keeps
  the array, so the next \<open>Append\<close> writes over the committed bytes. Whatever the size of
  the arrays \<open>grow\<close> allocates: the entry committed as "nemo" reads "nemo" right after
  the commit and "fish" once the next session has appended "fish". With the array
  sizes of \<open>go_policy\<close> and sessions as in the test: after a session "n","e","m","o"
  and a session "f","i","s","h", the store holds two entries and both read "fish".
\<close>

theorem AppendDone_entry_overwritten:
  "(let s1 = Append policy ''nemo'' (NewLogger (NewRingBuffer Minor 3) []);
        s2 = snd (AppendDone Major s1);
        s3 = Append policy ''fish'' s2
    in fst (PopL s2) = Inr ''nemo'' \<and> fst (PopL s3) = Inr ''fish'')
   \<and>
   (case sessions go_policy [[''n'', ''e'', ''m'', ''o''], [''f'', ''i'', ''s'', ''h'']] Major
           (NewLogger (NewRingBuffer Minor 3) []) of
      Inl e \<Rightarrow> False
    | Inr lh \<Rightarrow> pops 3 lh = [Inr ''fish'', Inr ''fish'', Inl PopTypeAssertionFailed])"
proof (rule conjI)
  show "(let s1 = Append policy ''nemo'' (NewLogger (NewRingBuffer Minor 3) []);
        s2 = snd (AppendDone Major s1);
        s3 = Append policy ''fish'' s2
    in fst (PopL s2) = Inr ''nemo'' \<and> fst (PopL s3) = Inr ''fish'')"
    by (simp add: PopL_def Append_def AppendDone_def NewLogger_def NewRingBuffer_def
        NewBuffer_def bytes_of_def WriteString_def cap_def Bytes_def Reset_def PWrite_def
        raise_highP_def ensure_ring_def buf_at_def ring_New_def store_Value_def advance_def
        set_Value_def Next_def Prev_def Value_def Pop_def GetBuffer_def string_of_def Let_def
        update_highP.simps split: prod.splits)
  show "(case sessions go_policy [[''n'', ''e'', ''m'', ''o''], [''f'', ''i'', ''s'', ''h'']] Major
           (NewLogger (NewRingBuffer Minor 3) []) of
      Inl e \<Rightarrow> False
    | Inr lh \<Rightarrow> pops 3 lh = [Inr ''fish'', Inr ''fish'', Inl PopTypeAssertionFailed])"
    by code_simp
qed

section \<open>Overflow of one ring\<close>




text \<open>
  Claim C7, amended. The scenario of \<open>testRingBufferOverflow\<close> holds at the capacity the
  test uses, 5: after the writes "0" to "6" the pops yield "6", "5", "4", "3", "2" and
  then an error.
\<close>

theorem testRingBufferOverflow_capacity_5:
  "testRingBufferOverflow 5 =
     [Inr ''6'', Inr ''5'', Inr ''4'', Inr ''3'', Inr ''2'', Inl PopTypeAssertionFailed]"
  by code_simp

text \<open>At capacity 3 only "6", "5", "4" come back: the fourth \<open>Pop\<close> is already an error.\<close>

theorem testRingBufferOverflow_capacity_3_counterexample:
  "testRingBufferOverflow 3 =
     [Inr ''6'', Inr ''5'', Inr ''4'',
      Inl PopTypeAssertionFailed, Inl PopTypeAssertionFailed, Inl PopTypeAssertionFailed]"
  by code_simp

section \<open>Pop and the mutex\<close>

text \<open>
  Claim C8. \<open>PWrite\<close> and \<open>Pop\<close> are each to hold the store's mutex for their critical
  section. \<open>Pop\<close> never touches it. Take a \<open>PWrite\<close> at \<open>Critical\<close> on a fresh store
  that holds the mutex, has raised \<open>highP\<close> and allocated the ring, and has not yet stored
  its value: a second \<open>PWrite\<close> blocks there, while \<open>Pop\<close> runs, finds the ring the
  writer has not filled yet, fails with the type-assertion error, and leaves the mutex
  held by the writer.
\<close>

theorem Pop_runs_while_lock_held:
  "(let r = ensure_ring Critical
              (raise_highP Critical ((NewRingBuffer Minor 3)\<lparr>lock := True\<rparr>))
    in lock r \<and> fst (PWrite Major b r) = Inl BlockedOnLock
     \<and> fst (Pop h r) = Inl PopTypeAssertionFailed \<and> lock (snd (Pop h r)))"
  by (simp add: NewRingBuffer_def PWrite_def raise_highP_def ensure_ring_def buf_at_def
      ring_New_def Prev_def Value_def Pop_def Let_def)

section \<open>The capacity\<close>

text \<open>
  Claim C9, amended. \<open>NewRingBuffer\<close> checks nothing and returns a store for every
  capacity. A store built with a positive capacity has that capacity, and \<open>PWrite\<close>
  on it cannot crash: after any sequence of calls of the interface, a \<open>PWrite\<close> at any
  priority returns the length of its argument.
\<close>

theorem PWrite_cannot_crash:
  "0 < sz \<Longrightarrow>
     bufCap (NewRingBuffer q sz) = sz \<and>
     fst (PWrite q' b (snd (run h cs (NewRingBuffer q sz)))) = Inr (len b)"
  by (simp add: store_ok_PWrite store_ok_run store_ok_New) (simp add: NewRingBuffer_def)

text \<open>The amended claim at capacity 3, after a write and two pops.\<close>

theorem PWrite_cannot_crash_witness:
  "(0::int) < 3 \<and> bufCap (NewRingBuffer Minor 3) = 3
   \<and> fst (PWrite Major \<lparr>arr = 0, len = 4\<rparr>
        (snd (run [''nemo''] [CallWrite \<lparr>arr = 0, len = 4\<rparr>, CallPop, CallPop]
                (NewRingBuffer Minor 3)))) = Inr 4"
  using PWrite_cannot_crash [of 3 Minor Major "\<lparr>arr = 0, len = 4\<rparr>" "[''nemo'']"
      "[CallWrite \<lparr>arr = 0, len = 4\<rparr>, CallPop, CallPop]"]
  by simp

text \<open>
  The claim as first stated fails: capacity 0 is accepted, and the first \<open>PWrite\<close> on that
  store dereferences the nil ring.
\<close>

theorem NewRingBuffer_capacity_counterexample:
  "bufCap (NewRingBuffer Minor 0) = 0
   \<and> fst (PWrite Minor \<lparr>arr = 0, len = 4\<rparr> (NewRingBuffer Minor 0)) = Inl NilPointerPanic"
  by code_simp

section \<open>What a failed Pop leaves behind\<close>

text \<open>
  Claim C10, amended. \<open>Pop\<close> returns the empty-buffer error exactly when the map has no
  ring at \<open>highP\<close>, and then the store is unchanged. When it returns the type-assertion
  error, the ring at \<open>highP\<close> has already been replaced by its \<open>Prev()\<close>, whose value
  is nil: the store returned is the store given with that one cursor a step back. In a
  store built by \<open>NewRingBuffer\<close> with a positive capacity \<open>C\<close> and used through the
  interface, that ring has \<open>C\<close> elements, and the failed \<open>Pop\<close> has changed the store
  exactly when \<open>C\<close> is more than 1.
\<close>

theorem Pop_error_atomicity:
  "(fst (Pop h r) = Inl BufferIsEmpty \<longleftrightarrow> buf r (highP r) = None) \<and>
   (fst (Pop h r) = Inl BufferIsEmpty \<longrightarrow> snd (Pop h r) = r) \<and>
   (fst (Pop h r) = Inl PopTypeAssertionFailed \<longrightarrow>
      (\<exists>g. buf r (highP r) = Some (Some g) \<and> Value (Prev g) = None \<and>
           snd (Pop h r) = r\<lparr>buf := (buf r)(highP r \<mapsto> Some (Prev g))\<rparr> \<and>
           (0 < C \<and> r = snd (run h' cs (NewRingBuffer d (int C))) \<longrightarrow>
              length (slots g) = C \<and> (snd (Pop h r) \<noteq> r \<longleftrightarrow> 1 < C))))"
proof (cases "fst (Pop h r) = Inl PopTypeAssertionFailed")
  case False
  with Pop_errors [of h r] show ?thesis by blast
next
  case True
  with Pop_errors [of h r] obtain g where g: "buf r (highP r) = Some (Some g)"
    "Value (Prev g) = None"
    "snd (Pop h r) = r\<lparr>buf := (buf r)(highP r \<mapsto> Some (Prev g))\<rparr>" by blast
  have reach: "length (slots g) = C \<and> (snd (Pop h r) \<noteq> r \<longleftrightarrow> 1 < C)"
    if "0 < C \<and> r = snd (run h' cs (NewRingBuffer d (int C)))"
  proof -
    from that g(1) have "buf (snd (run h' cs (NewRingBuffer d (int C)))) (highP r) = Some (Some g)"
      by simp
    from reached_rings [OF _ this] that have ok: "ring_ok g" and l: "length (slots g) = C"
      by auto
    have "snd (Pop h r) \<noteq> r \<longleftrightarrow> Prev g \<noteq> g"
      unfolding g(3) using step_back_same [OF g(1)] by simp
    also have "\<dots> \<longleftrightarrow> 1 < C"
    proof (cases "1 < C")
      case True
      with ok l Prev_neq [of g] show ?thesis by simp
    next
      case False
      with that l have "length (slots g) = 1" by simp
      with ok Prev_one False show ?thesis by simp
    qed
    finally show ?thesis using l by simp
  qed
  from Pop_errors [of h r] g reach show ?thesis by blast
qed

text \<open>
  Both errors at capacity 3: the store never written to is left as it is, and the store
  drained by one write and one \<open>Pop\<close> is changed by the \<open>Pop\<close> that fails.
\<close>

theorem Pop_error_atomicity_witness:
  "fst (Pop [''a''] (NewRingBuffer Minor 3)) = Inl BufferIsEmpty
   \<and> snd (Pop [''a''] (NewRingBuffer Minor 3)) = NewRingBuffer Minor 3
   \<and> (0::nat) < 3
   \<and> fst (Pop [''a''] (snd (run [''a''] [CallWrite \<lparr>arr = 0, len = 1\<rparr>, CallPop]
                               (NewRingBuffer Minor (int 3))))) = Inl PopTypeAssertionFailed
   \<and> snd (Pop [''a''] (snd (run [''a''] [CallWrite \<lparr>arr = 0, len = 1\<rparr>, CallPop]
                               (NewRingBuffer Minor (int 3)))))
       \<noteq> snd (run [''a''] [CallWrite \<lparr>arr = 0, len = 1\<rparr>, CallPop]
                (NewRingBuffer Minor (int 3)))"
proof -
  define ra where "ra = NewRingBuffer Minor 3"
  define rb where "rb = snd (run [''a''] [CallWrite \<lparr>arr = 0, len = 1\<rparr>, CallPop]
                              (NewRingBuffer Minor (int 3)))"
  have a: "fst (Pop [''a''] ra) = Inl BufferIsEmpty"
    unfolding ra_def by code_simp
  have b: "fst (Pop [''a''] rb) = Inl PopTypeAssertionFailed"
    unfolding rb_def by code_simp
  from Pop_error_atomicity [of "[''a'']" ra] a have 1: "snd (Pop [''a''] ra) = ra" by blast
  have reached: "0 < (3::nat) \<and> rb = snd (run [''a''] [CallWrite \<lparr>arr = 0, len = 1\<rparr>, CallPop]
                                           (NewRingBuffer Minor (int 3)))"
    by (simp add: rb_def)
  from Pop_error_atomicity [of "[''a'']" rb 3 "[''a'']"
      "[CallWrite \<lparr>arr = 0, len = 1\<rparr>, CallPop]" Minor] b reached
  have "snd (Pop [''a''] rb) \<noteq> rb \<longleftrightarrow> 1 < (3::nat)"
    by blast
  then have 2: "snd (Pop [''a''] rb) \<noteq> rb" by simp
  from a b 1 2 show ?thesis unfolding rb_def ra_def by simp
qed

text \<open>
  The claim as first stated, that the failed \<open>Pop\<close> always changes the store, fails at
  capacity 1: the ring has one element, \<open>Prev()\<close> is that element again, and after one
  write and one \<open>Pop\<close> the \<open>Pop\<close> that fails with the type-assertion error returns the
  store it was given.
\<close>

theorem Pop_error_atomicity_counterexample:
  "fst (Pop [''a''] (snd (run [''a''] [CallWrite \<lparr>arr = 0, len = 1\<rparr>, CallPop]
                            (NewRingBuffer Minor 1)))) = Inl PopTypeAssertionFailed
   \<and> snd (Pop [''a''] (snd (run [''a''] [CallWrite \<lparr>arr = 0, len = 1\<rparr>, CallPop]
                              (NewRingBuffer Minor 1))))
       = snd (run [''a''] [CallWrite \<lparr>arr = 0, len = 1\<rparr>, CallPop] (NewRingBuffer Minor 1))"
proof -
  define rb where "rb = snd (run [''a''] [CallWrite \<lparr>arr = 0, len = 1\<rparr>, CallPop]
                              (NewRingBuffer Minor 1))"
  have b: "fst (Pop [''a''] rb) = Inl PopTypeAssertionFailed"
    unfolding rb_def by code_simp
  have g: "buf rb (highP rb) = Some (Some \<lparr>slots = [None], cur = 0\<rparr>)"
    unfolding rb_def by code_simp
  have same: "Prev \<lparr>slots = [None], cur = 0\<rparr> = \<lparr>slots = [None], cur = 0\<rparr>"
    by (simp add: Prev_def)
  from Pop_errors [of "[''a'']" rb] b obtain g' where
    g': "buf rb (highP rb) = Some (Some g')"
    "snd (Pop [''a''] rb) = rb\<lparr>buf := (buf rb)(highP rb \<mapsto> Some (Prev g'))\<rparr>"
    by blast
  from g g'(1) have "g' = \<lparr>slots = [None], cur = 0\<rparr>" by (simp only: option.inject)
  with same have "Prev g' = g'" by simp
  with step_back_same [OF g'(1)] g'(2) have "snd (Pop [''a''] rb) = rb" by simp
  with b show ?thesis unfolding rb_def by simp
qed

end
